theory Spec2Isabelle
  imports Complex_Main "HOL-Library.AList"
begin

section \<open>Data model\<close>

text \<open>
  The detector hands the tracker a list of dictionaries with the keys
  \<^verbatim>\<open>"box"\<close>, \<^verbatim>\<open>"confidence"\<close> and \<^verbatim>\<open>"class"\<close>
  (\<^verbatim>\<open>detection.py\<close>, lines 80-84): the box is a list of integers, the confidence a
  rounded float that the tracker only copies, the class a label.
\<close>

record detection =
  det_box :: "int list"
  det_confidence :: real
  det_class :: string

text \<open>
  A track is the dictionary \<^verbatim>\<open>track_info\<close> built in \<^verbatim>\<open>ByteTrack.update\<close>
  (\<^verbatim>\<open>tracker.py\<close>, lines 58-64). The field \<open>last_seen\<close> is what the specification
  calls the age of a track.
\<close>

record track =
  track_id :: int
  box :: "int list"
  cls :: string
  confidence :: real
  last_seen :: int

text \<open>
  The track dictionaries are mutable objects, and \<^verbatim>\<open>update\<close> keeps two references to
  each new one: in \<^verbatim>\<open>self.tracks\<close> and in the list it returns. The model therefore has
  an object store: \<open>heap\<close> holds the track objects, an address is an index into it, and
  \<open>tracks\<close> is the dictionary \<^verbatim>\<open>self.tracks\<close> from id to reference, as an association
  list in insertion order (the iteration order of a Python dictionary). The deque
  \<^verbatim>\<open>self.history\<close> is never read or written after the constructor; only the
  constructor's check of its \<^verbatim>\<open>maxlen\<close> is modelled.
\<close>

type_synonym addr = nat

record ByteTrack =
  heap :: "track list"
  tracks :: "(int \<times> addr) list"
  next_id :: int
  buffer_size :: int

datatype error =
  ValueError | OverflowError | ZeroDivisionError | DetectorError | TransportError

section \<open>The tracker\<close>

text \<open>
  \<^verbatim>\<open>ByteTrack.__init__\<close> (lines 29-32). \<^verbatim>\<open>deque(maxlen=buffer_size)\<close> converts
  its argument to a signed 64-bit size first, which raises \<^verbatim>\<open>OverflowError\<close> outside
  that range, and then raises \<^verbatim>\<open>ValueError\<close> for a negative \<^verbatim>\<open>maxlen\<close>.
\<close>

definition ByteTrack_init :: "int \<Rightarrow> error + ByteTrack" where
  "ByteTrack_init bs =
     (if bs < - (2 ^ 63) \<or> 2 ^ 63 \<le> bs then Inl OverflowError
      else if bs < 0 then Inl ValueError
      else Inr \<lparr>heap = [], tracks = [], next_id = 0, buffer_size = bs\<rparr>)"

text \<open>
  The first loop of \<^verbatim>\<open>update\<close> (lines 51-66): every detection gets the next id and a
  new dictionary, which is stored under its id and appended to \<^verbatim>\<open>updated_tracks\<close>.
  \<open>AList.update\<close> is the dictionary assignment: it replaces the value of a key that is
  present and appends the entry otherwise.
\<close>

fun spawn_tracks :: "detection list \<Rightarrow> ByteTrack \<Rightarrow> addr list \<Rightarrow> ByteTrack \<times> addr list" where
  "spawn_tracks [] s updated_tracks = (s, updated_tracks)"
| "spawn_tracks (det # dets) s updated_tracks =
     (let tid = next_id s;
          s1 = s\<lparr>next_id := next_id s + 1\<rparr>;
          track_info = \<lparr>track_id = tid, box = det_box det, cls = det_class det,
                        confidence = det_confidence det, last_seen = 0\<rparr>;
          a = length (heap s1);
          s2 = s1\<lparr>heap := heap s1 @ [track_info],
                  tracks := AList.update tid a (tracks s1)\<rparr>
      in spawn_tracks dets s2 (updated_tracks @ [a]))"

text \<open>
  The second loop (lines 69-73) walks the items of \<^verbatim>\<open>self.tracks\<close>, increments
  \<^verbatim>\<open>last_seen\<close> in the object each entry refers to and collects the ids whose
  incremented value exceeds the buffer size. A Python reference always denotes an object;
  a state in which an address lies outside the store is not a state of the program, and
  \<open>wf\<close> below excludes it.
\<close>

fun age_tracks :: "(int \<times> addr) list \<Rightarrow> int \<Rightarrow> track list \<Rightarrow> int list \<Rightarrow> track list \<times> int list" where
  "age_tracks [] bs h tracks_to_remove = (h, tracks_to_remove)"
| "age_tracks ((tid, a) # items) bs h tracks_to_remove =
     (let t = (h ! a)\<lparr>last_seen := last_seen (h ! a) + 1\<rparr>;
          h' = h[a := t]
      in age_tracks items bs h'
           (if last_seen t > bs then tracks_to_remove @ [tid] else tracks_to_remove))"

text \<open>
  The third loop (lines 75-77): \<^verbatim>\<open>del self.tracks[track_id]\<close> for the collected ids.
  The ids were collected from the keys of the dictionary itself, each once, so the
  \<^verbatim>\<open>KeyError\<close> of \<^verbatim>\<open>del\<close> for an absent key cannot occur.
\<close>

fun remove_tracks :: "int list \<Rightarrow> (int \<times> addr) list \<Rightarrow> (int \<times> addr) list" where
  "remove_tracks [] ts = ts"
| "remove_tracks (tid # tids) ts = remove_tracks tids (AList.delete tid ts)"

text \<open>
  \<^verbatim>\<open>ByteTrack.update\<close>. The returned list is \<^verbatim>\<open>updated_tracks\<close>: references to the
  objects created by this call, read here in the store the call leaves behind.
\<close>

definition update :: "detection list \<Rightarrow> ByteTrack \<Rightarrow> track list \<times> ByteTrack" where
  "update detections s =
     (let (s1, updated_tracks) = spawn_tracks detections s [];
          (h2, tracks_to_remove) = age_tracks (tracks s1) (buffer_size s1) (heap s1) [];
          s3 = s1\<lparr>heap := h2, tracks := remove_tracks tracks_to_remove (tracks s1)\<rparr>
      in (map (\<lambda>a. heap s3 ! a) updated_tracks, s3))"

text \<open>
  \<^verbatim>\<open>ByteTrack.get_active_tracks\<close> (line 88): \<^verbatim>\<open>list(self.tracks.values())\<close>. It
  assigns nothing, so it is a function of the state alone.
\<close>

definition get_active_tracks :: "ByteTrack \<Rightarrow> track list" where
  "get_active_tracks s = map (\<lambda>(tid, a). heap s ! a) (tracks s)"

section \<open>The streaming session\<close>

text \<open>
  One pass of the \<^verbatim>\<open>while True\<close> loop of \<^verbatim>\<open>websocket_endpoint\<close>
  (\<^verbatim>\<open>stream.py\<close>, lines 32-87) depends on what the outside world does in it: what
  \<^verbatim>\<open>receive_text\<close> delivers, whether the payload decodes, what the detector answers
  if it is called, and whether rendering and sending succeed. These are the fields of
  \<open>cycle_env\<close>. The pixels of a decoded frame reach only the detector and the renderer,
  so a decoded frame carries no data here.
\<close>

datatype decoded =
    DecodeRaises    \<comment> \<open>\<^verbatim>\<open>b64decode\<close>, \<^verbatim>\<open>frombuffer\<close> or \<^verbatim>\<open>imdecode\<close> raised\<close>
  | DecodeNone      \<comment> \<open>\<^verbatim>\<open>imdecode\<close> returned \<^verbatim>\<open>None\<close>\<close>
  | Frame

datatype received =
    Disconnect      \<comment> \<open>\<^verbatim>\<open>receive_text\<close> raised \<^verbatim>\<open>WebSocketDisconnect\<close>\<close>
  | ReceiveRaises   \<comment> \<open>\<^verbatim>\<open>receive_text\<close> raised another exception\<close>
  | Text decoded

datatype detector_result = DetectRaises | Detections "detection list"

record cycle_env =
  received :: received
  detector :: detector_result
  send_ok :: bool

text \<open>
  The session's own state is the local \<^verbatim>\<open>frame_count\<close>; the tracker is the
  module-level object \<^verbatim>\<open>tracker\<close> that every session uses.
\<close>

record session =
  frame_count :: int
  tracker :: ByteTrack

datatype loop_exit = Disconnected | Failed error

record cycle_result =
  state_after :: session
  detector_called :: bool
  sent :: "(detection list \<times> track list) option"
  exited :: "loop_exit option"

text \<open>Lines 67-73: render, encode and send; a failure leaves the loop through line 91.\<close>

definition send_annotated ::
  "cycle_env \<Rightarrow> bool \<Rightarrow> detection list \<Rightarrow> track list \<Rightarrow> session \<Rightarrow> cycle_result" where
  "send_annotated env called detections trks st =
     (if send_ok env
      then \<lparr>state_after = st, detector_called = called,
            sent = Some (detections, trks), exited = None\<rparr>
      else \<lparr>state_after = st, detector_called = called,
            sent = None, exited = Some (Failed TransportError)\<rparr>)"

text \<open>
  One pass of the loop. \<open>interval\<close> is \<^verbatim>\<open>config.DETECTOR_FRAME_INTERVAL\<close>; Python's
  \<^verbatim>\<open>%\<close> raises \<^verbatim>\<open>ZeroDivisionError\<close> for a zero divisor and otherwise agrees with
  \<open>mod\<close> on \<open>int\<close>. The two \<^verbatim>\<open>continue\<close> statements (lines 45 and 48) come before
  the increment of \<^verbatim>\<open>frame_count\<close>. The call of the detector (line 58) is not inside
  a \<^verbatim>\<open>try\<close> of its own, so an exception it raises is caught by the handler of line 91,
  outside the loop.
\<close>

definition cycle :: "int \<Rightarrow> cycle_env \<Rightarrow> session \<Rightarrow> cycle_result" where
  "cycle interval env st =
     (case received env of
        Disconnect \<Rightarrow>
          \<lparr>state_after = st, detector_called = False, sent = None, exited = Some Disconnected\<rparr>
      | ReceiveRaises \<Rightarrow>
          \<lparr>state_after = st, detector_called = False, sent = None,
           exited = Some (Failed TransportError)\<rparr>
      | Text DecodeRaises \<Rightarrow>
          \<lparr>state_after = st, detector_called = False, sent = None, exited = None\<rparr>
      | Text DecodeNone \<Rightarrow>
          \<lparr>state_after = st, detector_called = False, sent = None, exited = None\<rparr>
      | Text Frame \<Rightarrow>
          (let st1 = st\<lparr>frame_count := frame_count st + 1\<rparr> in
           if interval = 0 then
             \<lparr>state_after = st1, detector_called = False, sent = None,
              exited = Some (Failed ZeroDivisionError)\<rparr>
           else if frame_count st1 mod interval = 0 then
             (case detector env of
                DetectRaises \<Rightarrow>
                  \<lparr>state_after = st1, detector_called = True, sent = None,
                   exited = Some (Failed DetectorError)\<rparr>
              | Detections detections \<Rightarrow>
                  (let (trks, trk') = update detections (tracker st1)
                   in send_annotated env True detections trks (st1\<lparr>tracker := trk'\<rparr>)))
           else send_annotated env False [] (get_active_tracks (tracker st1)) st1))"

text \<open>
  The loop over the passes the outside world provides: it goes on to the next message
  exactly when the pass did not leave the loop.
\<close>

fun stream_loop :: "int \<Rightarrow> cycle_env list \<Rightarrow> session \<Rightarrow> cycle_result list" where
  "stream_loop interval [] st = []"
| "stream_loop interval (env # envs) st =
     (let r = cycle interval env st
      in r # (case exited r of None \<Rightarrow> stream_loop interval envs (state_after r)
                             | Some e \<Rightarrow> []))"

definition websocket_endpoint :: "int \<Rightarrow> cycle_env list \<Rightarrow> ByteTrack \<Rightarrow> cycle_result list" where
  "websocket_endpoint interval envs trk =
     stream_loop interval envs \<lparr>frame_count = 0, tracker = trk\<rparr>"

section \<open>Runs of the tracker\<close>

text \<open>
  A run of the tracker is a sequence of its two operations; each call yields the list
  it returns, and \<^verbatim>\<open>update\<close> also changes the tracker.
\<close>

datatype operation = Update "detection list" | Fetch

fun apply_operation :: "operation \<Rightarrow> ByteTrack \<Rightarrow> track list \<times> ByteTrack" where
  "apply_operation (Update detections) s = update detections s"
| "apply_operation Fetch s = (get_active_tracks s, s)"

fun run :: "operation list \<Rightarrow> ByteTrack \<Rightarrow> track list list \<times> ByteTrack" where
  "run [] s = ([], s)"
| "run (x # xs) s =
     (let (out, s1) = apply_operation x s;
          (outs, s2) = run xs s1
      in (out # outs, s2))"

section \<open>Well-formed tracker states\<close>

text \<open>
  \<open>lookup_track\<close> is \<^verbatim>\<open>self.tracks.get(tid)\<close>, read through the store.
\<close>

definition lookup_track :: "ByteTrack \<Rightarrow> int \<Rightarrow> track option" where
  "lookup_track s tid = map_option (\<lambda>a. heap s ! a) (map_of (tracks s) tid)"

text \<open>
  The states the program can be in: the keys of the dictionary are in ascending order,
  no two entries refer to the same object, every reference denotes an object of the
  store whose \<^verbatim>\<open>"id"\<close> is its key, every key is below the id counter, and no age or
  buffer size is negative.
\<close>

definition wf :: "ByteTrack \<Rightarrow> bool" where
  "wf s \<longleftrightarrow>
     sorted_wrt (<) (map fst (tracks s)) \<and>
     distinct (map snd (tracks s)) \<and>
     list_all (\<lambda>(tid, a). a < length (heap s) \<and> track_id (heap s ! a) = tid \<and>
                          tid < next_id s \<and> 0 \<le> last_seen (heap s ! a)) (tracks s) \<and>
     0 \<le> buffer_size s"

text \<open>No track of the live set is older than the buffer size.\<close>

definition no_stale :: "ByteTrack \<Rightarrow> bool" where
  "no_stale s \<longleftrightarrow> list_all (\<lambda>t. last_seen t \<le> buffer_size s) (get_active_tracks s)"

section \<open>Views of the state used in the proofs\<close>

text \<open>
  The aging pass adds one to \<^verbatim>\<open>last_seen\<close>; \<open>new_tracks n dets\<close> are the dictionaries
  the first loop builds when the id counter is \<open>n\<close>; \<open>live s\<close> are the items of
  \<^verbatim>\<open>self.tracks\<close> with every reference replaced by the object it denotes.
\<close>

definition aged :: "track \<Rightarrow> track" where
  "aged t = t\<lparr>last_seen := last_seen t + 1\<rparr>"

fun new_tracks :: "int \<Rightarrow> detection list \<Rightarrow> track list" where
  "new_tracks n [] = []"
| "new_tracks n (det # dets) =
     \<lparr>track_id = n, box = det_box det, cls = det_class det,
      confidence = det_confidence det, last_seen = 0\<rparr> # new_tracks (n + 1) dets"

definition live :: "ByteTrack \<Rightarrow> (int \<times> track) list" where
  "live s = map (\<lambda>(tid, a). (tid, heap s ! a)) (tracks s)"

section \<open>Concrete inputs\<close>

text \<open>
  A detection as the repository's detector test produces it, the tracker as
  \<^verbatim>\<open>ByteTrack()\<close> constructs it (buffer size 30), passes of the loop with a frame that
  decodes and with a payload that does not, and a session that has seen no frame.
\<close>

definition person :: detection where
  "person = \<lparr>det_box = [10, 10, 50, 50], det_confidence = 9 / 10, det_class = ''person''\<rparr>"

definition fresh_tracker :: ByteTrack where
  "fresh_tracker = \<lparr>heap = [], tracks = [], next_id = 0, buffer_size = 30\<rparr>"

definition frame_env :: "detector_result \<Rightarrow> cycle_env" where
  "frame_env d = \<lparr>received = Text Frame, detector = d, send_ok = True\<rparr>"

definition bad_payload_env :: cycle_env where
  "bad_payload_env =
     \<lparr>received = Text DecodeNone, detector = Detections [person], send_ok = True\<rparr>"

definition new_session :: session where
  "new_session = \<lparr>frame_count = 0, tracker = fresh_tracker\<rparr>"

text \<open>
  A second detection, and the tracker after \<^verbatim>\<open>update\<close> has been called once on a
  fresh tracker with one detection.
\<close>

definition car :: detection where
  "car = \<lparr>det_box = [60, 60, 100, 100], det_confidence = 8 / 10, det_class = ''car''\<rparr>"

definition aged_tracker :: ByteTrack where
  "aged_tracker = snd (update [person] fresh_tracker)"

section \<open>The three phases of \<^verbatim>\<open>update\<close> on well-formed states\<close>

lemma length_new_tracks [simp]: "length (new_tracks n dets) = length dets"
  by (induction dets arbitrary: n) auto

lemma track_id_new_tracks:
  "map track_id (new_tracks n dets) = map (\<lambda>i. n + int i) [0..<length dets]"
proof (induction dets arbitrary: n)
  case Nil
  show ?case by simp
next
  case (Cons det dets)
  have "map (\<lambda>i. n + int i) [0..<Suc (length dets)] =
        n # map (\<lambda>i. n + int (Suc i)) [0..<length dets]"
    by (simp add: upt_conv_Cons map_Suc_upt [symmetric] del: upt_Suc)
  then show ?case using Cons [of "n + 1"] by (simp add: add.assoc add.commute)
qed

lemma update_fresh_key:
  "k \<notin> fst ` set al \<Longrightarrow> AList.update k v al = al @ [(k, v)]"
  by (induction al) auto

lemma spawn_tracks_eq:
  "\<forall>k \<in> fst ` set (tracks s). k < next_id s \<Longrightarrow>
   spawn_tracks dets s upd =
     (s\<lparr>heap := heap s @ new_tracks (next_id s) dets,
        tracks := tracks s @ zip (map track_id (new_tracks (next_id s) dets))
                               [length (heap s)..<length (heap s) + length dets],
        next_id := next_id s + int (length dets)\<rparr>,
      upd @ [length (heap s)..<length (heap s) + length dets])"
proof (induction dets arbitrary: s upd)
  case Nil
  show ?case by simp
next
  case (Cons det dets)
  let ?t = "\<lparr>track_id = next_id s, box = det_box det, cls = det_class det,
             confidence = det_confidence det, last_seen = 0\<rparr>"
  let ?s2 = "s\<lparr>next_id := next_id s + 1, heap := heap s @ [?t],
              tracks := tracks s @ [(next_id s, length (heap s))]\<rparr>"
  have fresh: "next_id s \<notin> fst ` set (tracks s)"
    using Cons.prems by auto
  have step: "spawn_tracks (det # dets) s upd = spawn_tracks dets ?s2 (upd @ [length (heap s)])"
    by (simp add: Let_def update_fresh_key [OF fresh])
  have keys: "\<forall>k \<in> fst ` set (tracks ?s2). k < next_id ?s2"
    using Cons.prems by fastforce
  have upt: "[length (heap s)..<length (heap s) + Suc (length dets)] =
             length (heap s) # [Suc (length (heap s))..<Suc (length (heap s)) + length dets]"
    by (simp add: upt_conv_Cons del: upt_Suc)
  show ?case
    unfolding step Cons.IH [OF keys] using upt
    by (simp add: add.assoc del: upt_Suc)
qed


lemma age_tracks_eq:
  "distinct (map snd items) \<Longrightarrow> \<forall>a \<in> snd ` set items. a < length h \<Longrightarrow>
   age_tracks items bs h rm =
     (map (\<lambda>i. if i \<in> snd ` set items then aged (h ! i) else h ! i) [0..<length h],
      rm @ map fst (filter (\<lambda>(tid, a). bs < last_seen (aged (h ! a))) items))"
proof (induction items arbitrary: h rm)
  case Nil
  show ?case by (simp add: map_nth)
next
  case (Cons p items)
  obtain tid a where p: "p = (tid, a)" by (cases p)
  let ?h = "h[a := aged (h ! a)]"
  have a: "a < length h" "a \<notin> snd ` set items" "distinct (map snd items)"
    using Cons.prems by (auto simp: p)
  have bound: "\<forall>b \<in> snd ` set items. b < length ?h"
    using Cons.prems by simp
  have heap_eq:
    "map (\<lambda>i. if i \<in> snd ` set items then aged (?h ! i) else ?h ! i) [0..<length ?h] =
     map (\<lambda>i. if i \<in> snd ` set (p # items) then aged (h ! i) else h ! i) [0..<length h]"
    using a by (auto simp: p nth_list_update)
  have other: "b \<noteq> a" if "(k, b) \<in> set items" for k b
    using a(2) that by force
  have rm_eq:
    "filter (\<lambda>(tid, b). bs < last_seen (aged (?h ! b))) items =
     filter (\<lambda>(tid, b). bs < last_seen (aged (h ! b))) items"
    by (intro filter_cong) (auto simp: nth_list_update dest: other)
  have step: "age_tracks (p # items) bs h rm =
      age_tracks items bs ?h (if bs < last_seen (aged (h ! a)) then rm @ [tid] else rm)"
    using a by (simp add: p aged_def Let_def)
  show ?case
    unfolding step Cons.IH [OF a(3) bound] heap_eq rm_eq
    by (simp add: p)
qed

lemma remove_tracks_eq: "remove_tracks tids ts = filter (\<lambda>(tid, a). tid \<notin> set tids) ts"
proof (induction tids arbitrary: ts)
  case Nil
  show ?case by simp
next
  case (Cons tid tids)
  show ?case
    by (simp add: Cons.IH AList.delete_eq) (rule filter_cong, auto)
qed


lemma filter_removed_keys:
  assumes "distinct (map fst xs)"
  shows "filter (\<lambda>(k, v). k \<notin> set (map fst (filter P xs))) xs = filter (\<lambda>x. \<not> P x) xs"
proof (rule filter_cong [OF refl])
  fix x assume x: "x \<in> set xs"
  obtain k v where kv: "x = (k, v)" by (cases x)
  have "k \<in> set (map fst (filter P xs)) \<longleftrightarrow> P (k, v)"
  proof
    assume "k \<in> set (map fst (filter P xs))"
    then obtain v' where v': "(k, v') \<in> set xs" "P (k, v')" by auto
    with assms x kv have "v' = v" by (meson eq_key_imp_eq_value)
    with v' show "P (k, v)" by simp
  next
    assume "P (k, v)"
    with x kv show "k \<in> set (map fst (filter P xs))" by force
  qed
  then show "(case x of (k, v) \<Rightarrow> k \<notin> set (map fst (filter P xs))) = (\<not> P x)"
    by (simp add: kv)
qed

lemma wf_keys_below: "wf s \<Longrightarrow> \<forall>k \<in> fst ` set (tracks s). k < next_id s"
  by (auto simp: wf_def list_all_iff)

lemma wf_addr_below: "wf s \<Longrightarrow> \<forall>a \<in> snd ` set (tracks s). a < length (heap s)"
  by (auto simp: wf_def list_all_iff)

lemma update_eq:
  fixes s :: ByteTrack and dets :: "detection list"
  assumes "wf s"
  defines "N \<equiv> new_tracks (next_id s) dets"
  defines "addrs \<equiv> [length (heap s)..<length (heap s) + length dets]"
  defines "items \<equiv> tracks s @ zip (map track_id N) addrs"
  defines "h1 \<equiv> heap s @ N"
  shows "update dets s =
    (map aged N,
     s\<lparr>heap := map (\<lambda>i. if i \<in> snd ` set items then aged (h1 ! i) else h1 ! i) [0..<length h1],
       tracks := filter (\<lambda>(tid, a). last_seen (aged (h1 ! a)) \<le> buffer_size s) items,
       next_id := next_id s + int (length dets)\<rparr>)"
proof -
  have spawn: "spawn_tracks dets s [] =
      (s\<lparr>heap := h1, tracks := items, next_id := next_id s + int (length dets)\<rparr>, addrs)"
    using spawn_tracks_eq [OF wf_keys_below [OF assms(1)], of dets "[]"]
    by (simp add: N_def addrs_def items_def h1_def)
  have snd_items: "map snd items = map snd (tracks s) @ addrs"
    by (simp add: items_def addrs_def N_def)
  have fst_items: "map fst items = map fst (tracks s) @ map track_id N"
    by (simp add: items_def addrs_def N_def)
  have dist_snd: "distinct (map snd items)"
    unfolding snd_items using assms(1) wf_addr_below [OF assms(1)]
    by (auto simp: wf_def addrs_def)
  have dist_fst: "distinct (map fst items)"
  proof -
    have "distinct (map fst (tracks s))"
      using assms(1) by (simp add: wf_def strict_sorted_iff)
    moreover have "distinct (map track_id N)"
      by (simp add: N_def track_id_new_tracks distinct_map inj_on_def)
    moreover have "set (map fst (tracks s)) \<inter> set (map track_id N) = {}"
      using wf_keys_below [OF assms(1)] by (auto simp: N_def track_id_new_tracks)
    ultimately show ?thesis unfolding fst_items by simp
  qed
  have bound: "\<forall>a \<in> snd ` set items. a < length h1"
  proof -
    have "set (map snd items) = snd ` set (tracks s) \<union> set addrs"
      unfolding snd_items by simp
    then show ?thesis
      using wf_addr_below [OF assms(1)] by (auto simp: addrs_def h1_def N_def)
  qed
  have age: "age_tracks items (buffer_size s) h1 [] =
     (map (\<lambda>i. if i \<in> snd ` set items then aged (h1 ! i) else h1 ! i) [0..<length h1],
      map fst (filter (\<lambda>(tid, a). buffer_size s < last_seen (aged (h1 ! a))) items))"
    using age_tracks_eq [OF dist_snd bound, of "buffer_size s" "[]"] by simp
  have rm: "remove_tracks (map fst (filter (\<lambda>(tid, a). buffer_size s < last_seen (aged (h1 ! a))) items)) items
      = filter (\<lambda>(tid, a). last_seen (aged (h1 ! a)) \<le> buffer_size s) items"
    unfolding remove_tracks_eq filter_removed_keys [OF dist_fst]
    by (rule filter_cong) auto
  have res: "map (\<lambda>a. map (\<lambda>i. if i \<in> snd ` set items then aged (h1 ! i) else h1 ! i) [0..<length h1] ! a) addrs
      = map aged N"
  proof (rule nth_equalityI)
    show "length (map (\<lambda>a. map (\<lambda>i. if i \<in> snd ` set items then aged (h1 ! i) else h1 ! i) [0..<length h1] ! a) addrs)
        = length (map aged N)"
      by (simp add: addrs_def N_def)
  next
    fix i assume "i < length (map (\<lambda>a. map (\<lambda>i. if i \<in> snd ` set items then aged (h1 ! i) else h1 ! i) [0..<length h1] ! a) addrs)"
    then have i: "i < length dets" by (simp add: addrs_def)
    then have ai: "addrs ! i = length (heap s) + i" by (simp add: addrs_def)
    have "addrs ! i \<in> set (map snd items)"
      unfolding snd_items using i by (simp add: addrs_def)
    then have mem: "length (heap s) + i \<in> snd ` set items" using ai by simp
    show "map (\<lambda>a. map (\<lambda>i. if i \<in> snd ` set items then aged (h1 ! i) else h1 ! i) [0..<length h1] ! a) addrs ! i
        = map aged N ! i"
      using i mem by (simp add: addrs_def h1_def N_def nth_append)
  qed
  show ?thesis
    unfolding update_def spawn by (simp add: age rm res)
qed


lemma update_out: "wf s \<Longrightarrow> fst (update dets s) = map aged (new_tracks (next_id s) dets)"
  by (simp add: update_eq)

lemma update_next_id: "wf s \<Longrightarrow> next_id (snd (update dets s)) = next_id s + int (length dets)"
  by (simp add: update_eq)

lemma update_buffer_size: "wf s \<Longrightarrow> buffer_size (snd (update dets s)) = buffer_size s"
  by (simp add: update_eq)

lemma update_live:
  fixes s :: ByteTrack and dets :: "detection list"
  assumes "wf s"
  shows "live (snd (update dets s)) =
    filter (\<lambda>(tid, t). last_seen t \<le> buffer_size s)
      (map (\<lambda>(tid, t). (tid, aged t)) (live s) @
       map (\<lambda>t. (track_id t, aged t)) (new_tracks (next_id s) dets))"
proof -
  define N where "N = new_tracks (next_id s) dets"
  define addrs where "addrs = [length (heap s)..<length (heap s) + length dets]"
  define items where "items = tracks s @ zip (map track_id N) addrs"
  define h1 where "h1 = heap s @ N"
  define h2 where "h2 = map (\<lambda>i. if i \<in> snd ` set items then aged (h1 ! i) else h1 ! i) [0..<length h1]"
  have below: "a < length (heap s)" if "(tid, a) \<in> set (tracks s)" for tid a
    using wf_addr_below [OF assms] that by force
  have in_h1: "a < length h1" if "(tid, a) \<in> set items" for tid a
  proof -
    from that consider "(tid, a) \<in> set (tracks s)" | "a \<in> set addrs"
      by (auto simp: items_def dest: set_zip_rightD)
    then show ?thesis
    proof cases
      case 1
      from below [OF 1] show ?thesis by (simp add: h1_def)
    next
      case 2
      then show ?thesis by (simp add: addrs_def h1_def N_def)
    qed
  qed
  have h2_nth: "h2 ! a = aged (h1 ! a)" if "(tid, a) \<in> set items" for tid a
  proof -
    have "a \<in> snd ` set items" using that by force
    then show ?thesis using in_h1 [OF that] by (simp add: h2_def)
  qed
  have old: "map (\<lambda>(tid, a). (tid, aged (h1 ! a))) (tracks s) =
             map (\<lambda>(tid, t). (tid, aged t)) (live s)"
    by (auto simp: live_def h1_def nth_append dest: below)
  have new: "map (\<lambda>(tid, a). (tid, aged (h1 ! a))) (zip (map track_id N) addrs) =
             map (\<lambda>t. (track_id t, aged t)) N"
    by (rule nth_equalityI) (simp_all add: addrs_def N_def h1_def nth_append)
  have upd: "update dets s =
      (map aged N,
       s\<lparr>heap := h2,
         tracks := filter (\<lambda>(tid, a). last_seen (aged (h1 ! a)) \<le> buffer_size s) items,
         next_id := next_id s + int (length dets)\<rparr>)"
    unfolding h2_def items_def h1_def N_def addrs_def by (rule update_eq [OF assms])
  have "live (snd (update dets s)) =
      map (\<lambda>(tid, a). (tid, h2 ! a))
        (filter (\<lambda>(tid, a). last_seen (aged (h1 ! a)) \<le> buffer_size s) items)"
    by (simp add: upd live_def)
  also have "\<dots> = map (\<lambda>(tid, a). (tid, aged (h1 ! a)))
        (filter (\<lambda>(tid, a). last_seen (aged (h1 ! a)) \<le> buffer_size s) items)"
    by (rule map_cong [OF refl]) (auto dest: h2_nth)
  also have "\<dots> = filter (\<lambda>(tid, t). last_seen t \<le> buffer_size s)
        (map (\<lambda>(tid, a). (tid, aged (h1 ! a))) items)"
    by (simp add: filter_map comp_def case_prod_unfold)
  also have "map (\<lambda>(tid, a). (tid, aged (h1 ! a))) items =
      map (\<lambda>(tid, t). (tid, aged t)) (live s) @ map (\<lambda>t. (track_id t, aged t)) N"
    by (simp add: items_def old new)
  finally show ?thesis by (simp add: N_def)
qed


lemma aged_simps [simp]:
  "track_id (aged t) = track_id t" "last_seen (aged t) = last_seen t + 1"
  "box (aged t) = box t" "cls (aged t) = cls t" "confidence (aged t) = confidence t"
  by (simp_all add: aged_def)

lemma new_tracks_fresh: "t \<in> set (new_tracks n dets) \<Longrightarrow> last_seen t = 0 \<and> n \<le> track_id t \<and> track_id t < n + int (length dets)"
  by (induction dets arbitrary: n) force+

lemma sorted_new_tracks: "sorted_wrt (<) (map track_id (new_tracks n dets))"
  by (simp add: track_id_new_tracks sorted_wrt_map sorted_wrt_iff_nth_less)

lemma wf_live:
  "wf s \<longleftrightarrow>
     distinct (map snd (tracks s)) \<and> (\<forall>a \<in> snd ` set (tracks s). a < length (heap s)) \<and>
     sorted_wrt (<) (map fst (live s)) \<and>
     (\<forall>(tid, t) \<in> set (live s). track_id t = tid \<and> tid < next_id s \<and> 0 \<le> last_seen t) \<and>
     0 \<le> buffer_size s"
  by (auto simp: wf_def live_def list_all_iff comp_def case_prod_unfold)

lemma update_wf:
  fixes s :: ByteTrack and dets :: "detection list"
  assumes "wf s"
  shows "wf (snd (update dets s))"
proof -
  define N where "N = new_tracks (next_id s) dets"
  define addrs where "addrs = [length (heap s)..<length (heap s) + length dets]"
  define items where "items = tracks s @ zip (map track_id N) addrs"
  define h1 where "h1 = heap s @ N"
  define h2 where "h2 = map (\<lambda>i. if i \<in> snd ` set items then aged (h1 ! i) else h1 ! i) [0..<length h1]"
  define s' where "s' = snd (update dets s)"
  have upd: "update dets s =
      (map aged N,
       s\<lparr>heap := h2,
         tracks := filter (\<lambda>(tid, a). last_seen (aged (h1 ! a)) \<le> buffer_size s) items,
         next_id := next_id s + int (length dets)\<rparr>)"
    unfolding h2_def items_def h1_def N_def addrs_def by (rule update_eq [OF assms])
  have w: "distinct (map snd (tracks s))" "\<forall>a \<in> snd ` set (tracks s). a < length (heap s)"
      "sorted_wrt (<) (map fst (live s))"
      "\<forall>(tid, t) \<in> set (live s). track_id t = tid \<and> tid < next_id s \<and> 0 \<le> last_seen t"
      "0 \<le> buffer_size s"
    using assms unfolding wf_live by blast+
  have snd_items: "map snd items = map snd (tracks s) @ addrs"
    by (simp add: items_def addrs_def N_def)
  have "distinct (map snd items)"
    unfolding snd_items using w(1,2) by (auto simp: addrs_def)
  then have 1: "distinct (map snd (tracks s'))"
    by (simp add: s'_def upd distinct_map_filter)
  have "set (map snd items) = snd ` set (tracks s) \<union> set addrs"
    unfolding snd_items by simp
  then have "\<forall>a \<in> snd ` set items. a < length h2"
    using w(2) by (auto simp: addrs_def h1_def h2_def N_def)
  then have 2: "\<forall>a \<in> snd ` set (tracks s'). a < length (heap s')"
    by (auto simp: s'_def upd)
  have live': "live s' = filter (\<lambda>(tid, t). last_seen t \<le> buffer_size s)
      (map (\<lambda>(tid, t). (tid, aged t)) (live s) @ map (\<lambda>t. (track_id t, aged t)) N)"
    unfolding s'_def N_def by (rule update_live [OF assms])
  have "sorted_wrt (<) (map fst (live s) @ map track_id N)"
    using w(3,4) sorted_new_tracks [of "next_id s" dets] new_tracks_fresh [of _ "next_id s" dets]
    by (fastforce simp: sorted_wrt_append N_def)
  then have "sorted_wrt (<) (map fst (map (\<lambda>(tid, t). (tid, aged t)) (live s) @ map (\<lambda>t. (track_id t, aged t)) N))"
    by (simp add: comp_def case_prod_unfold)
  then have 3: "sorted_wrt (<) (map fst (live s'))"
    unfolding live' sorted_wrt_map by (rule sorted_wrt_filter)
  have 4: "\<forall>(tid, t) \<in> set (live s'). track_id t = tid \<and> tid < next_id s' \<and> 0 \<le> last_seen t"
    unfolding live' using w(4) new_tracks_fresh [of _ "next_id s" dets]
    by (fastforce simp: s'_def upd N_def)
  have 5: "0 \<le> buffer_size s'" using w(5) by (simp add: s'_def upd)
  show ?thesis
    using 1 2 3 4 5 unfolding s'_def [symmetric] wf_live by blast
qed


lemma get_active_tracks_live: "get_active_tracks s = map snd (live s)"
  by (simp add: get_active_tracks_def live_def comp_def case_prod_unfold)

lemma lookup_track_live: "lookup_track s tid = map_of (live s) tid"
  by (simp add: lookup_track_def live_def map_of_map)

lemma map_fst_live [simp]: "map fst (live s) = map fst (tracks s)"
  by (simp add: live_def comp_def case_prod_unfold)

lemma live_Nil_iff: "live s = [] \<longleftrightarrow> tracks s = []"
  by (simp add: live_def)

lemma map_of_filter_present:
  assumes "distinct (map fst xs)" and "map_of xs k = Some v"
  shows "map_of (filter P xs) k = (if P (k, v) then Some v else None)"
  using assms
proof (induction xs)
  case Nil
  then show ?case by simp
next
  case (Cons x xs)
  obtain k' v' where x: "x = (k', v')" by (cases x)
  show ?case
  proof (cases "k' = k")
    case True
    then have "v' = v" using Cons.prems(2) by (simp add: x)
    moreover have "map_of (filter P xs) k = None"
      using Cons.prems(1) True by (force simp: x map_of_eq_None_iff)
    ultimately show ?thesis using True by (simp add: x)
  next
    case False
    then show ?thesis using Cons by (simp add: x)
  qed
qed

section \<open>Lookups, runs and the invariant\<close>

lemma distinct_live_keys: "wf s \<Longrightarrow> distinct (map fst (live s))"
  by (simp add: wf_def strict_sorted_iff)

lemma live_after_update_keys:
  assumes "wf s"
  shows "distinct (map fst (map (\<lambda>(tid, t). (tid, aged t)) (live s) @
       map (\<lambda>t. (track_id t, aged t)) (new_tracks (next_id s) dets)))"
proof -
  have "sorted_wrt (<) (map fst (tracks s) @ map track_id (new_tracks (next_id s) dets))"
    using assms wf_keys_below [OF assms] sorted_new_tracks [of "next_id s" dets]
      new_tracks_fresh [of _ "next_id s" dets]
    by (fastforce simp: sorted_wrt_append wf_def)
  then have "distinct (map fst (tracks s) @ map track_id (new_tracks (next_id s) dets))"
    by (simp only: strict_sorted_iff)
  then show ?thesis by (simp add: comp_def case_prod_unfold live_def)
qed

lemma update_no_stale: "wf s \<Longrightarrow> no_stale (snd (update dets s))"
  by (auto simp: no_stale_def get_active_tracks_live update_live update_buffer_size list_all_iff)

lemma update_lookup_old:
  assumes "wf s" and "lookup_track s tid = Some t"
  shows "lookup_track (snd (update dets s)) tid =
           (if last_seen t + 1 \<le> buffer_size s then Some (aged t) else None)"
proof -
  let ?xs = "map (\<lambda>(tid, t). (tid, aged t)) (live s)"
  let ?ys = "map (\<lambda>t. (track_id t, aged t)) (new_tracks (next_id s) dets)"
  have "map_of ?xs tid = Some (aged t)"
    using assms(2) by (simp add: lookup_track_live map_of_map)
  then have "map_of (?xs @ ?ys) tid = Some (aged t)"
    by (simp add: map_add_Some_iff)
  from map_of_filter_present [OF live_after_update_keys [OF assms(1)] this]
  show ?thesis
    by (simp add: lookup_track_live update_live [OF assms(1)])
qed

lemma update_lookup_new:
  assumes "wf s" and "t \<in> set (new_tracks (next_id s) dets)"
  shows "lookup_track (snd (update dets s)) (track_id t) =
           (if 1 \<le> buffer_size s then Some (aged t) else None)"
proof -
  let ?xs = "map (\<lambda>(tid, t). (tid, aged t)) (live s)"
  let ?ys = "map (\<lambda>t. (track_id t, aged t)) (new_tracks (next_id s) dets)"
  have d: "distinct (map fst (?xs @ ?ys))"
    by (rule live_after_update_keys [OF assms(1)])
  have "(track_id t, aged t) \<in> set (?xs @ ?ys)"
    using assms(2) by auto
  then have "map_of (?xs @ ?ys) (track_id t) = Some (aged t)"
    using d by (simp only: map_of_eq_Some_iff)
  from map_of_filter_present [OF d this]
  show ?thesis
    using new_tracks_fresh [OF assms(2)]
    by (simp add: lookup_track_live update_live [OF assms(1)])
qed

lemma init_wf: "ByteTrack_init bs = Inr s \<Longrightarrow> wf s \<and> no_stale s \<and> next_id s = 0 \<and> live s = []"
  by (auto simp: ByteTrack_init_def wf_def no_stale_def get_active_tracks_def live_def split: if_splits)

lemma apply_operation_wf:
  "wf s \<Longrightarrow> no_stale s \<Longrightarrow> wf (snd (apply_operation x s)) \<and> no_stale (snd (apply_operation x s))"
  by (cases x) (simp_all add: update_wf update_no_stale)

lemma run_wf: "wf s \<Longrightarrow> no_stale s \<Longrightarrow> wf (snd (run ops s)) \<and> no_stale (snd (run ops s))"
proof (induction ops arbitrary: s)
  case Nil
  then show ?case by simp
next
  case (Cons x ops)
  from apply_operation_wf [OF Cons.prems, of x] Cons.IH [of "snd (apply_operation x s)"]
  show ?case by (simp add: case_prod_unfold Let_def)
qed

lemma live_from_active:
  assumes "wf s"
  shows "live s = map (\<lambda>t. (track_id t, t)) (get_active_tracks s)"
  unfolding get_active_tracks_live map_map
proof (rule map_idI [symmetric])
  fix x assume "x \<in> set (live s)"
  then show "((\<lambda>t. (track_id t, t)) \<circ> snd) x = x"
    using assms unfolding wf_live by (cases x) auto
qed

lemma update_same_view:
  assumes "wf s1" "wf s2" "live s1 = live s2" "next_id s1 = next_id s2"
    "buffer_size s1 = buffer_size s2"
  shows "fst (update dets s1) = fst (update dets s2)"
    and "live (snd (update dets s1)) = live (snd (update dets s2))"
    and "next_id (snd (update dets s1)) = next_id (snd (update dets s2))"
    and "buffer_size (snd (update dets s1)) = buffer_size (snd (update dets s2))"
  using assms by (simp_all add: update_out update_live update_next_id update_buffer_size)

lemma run_same_view:
  assumes "wf s1" "wf s2" "live s1 = live s2" "next_id s1 = next_id s2"
    "buffer_size s1 = buffer_size s2"
  shows "fst (run ops s1) = fst (run ops s2)"
  using assms
proof (induction ops arbitrary: s1 s2)
  case Nil
  show ?case by simp
next
  case (Cons x ops)
  show ?case
  proof (cases x)
    case (Update dets)
    have "fst (run ops (snd (update dets s1))) = fst (run ops (snd (update dets s2)))"
      using Cons.prems
      by (intro Cons.IH update_wf update_same_view)
    moreover have "fst (update dets s1) = fst (update dets s2)"
      using Cons.prems by (rule update_same_view)
    ultimately show ?thesis
      by (simp add: Update case_prod_unfold Let_def)
  next
    case Fetch
    have "fst (run ops s1) = fst (run ops s2)"
      using Cons.prems by (rule Cons.IH)
    then show ?thesis
      using Cons.prems(3) by (simp add: Fetch case_prod_unfold Let_def get_active_tracks_live)
  qed
qed

lemma run_Update_Cons:
  "run (Update dets # ops) s =
     (fst (update dets s) # fst (run ops (snd (update dets s))),
      snd (run ops (snd (update dets s))))"
  by (simp add: case_prod_unfold Let_def)

lemma map_offset_upt:
  "map (\<lambda>i. (n::int) + int k + int i) [0..<m] = map (\<lambda>i. n + int i) [k..<k + m]"
  by (rule nth_equalityI) (simp_all add: algebra_simps)

lemma run_updates_ids:
  assumes "wf s"
  shows "concat (map (map track_id) (fst (run (map Update dss) s))) =
           map (\<lambda>i. next_id s + int i) [0..<length (concat dss)] \<and>
         next_id (snd (run (map Update dss) s)) = next_id s + int (length (concat dss))"
  using assms
proof (induction dss arbitrary: s)
  case Nil
  show ?case by simp
next
  case (Cons dets dss)
  let ?s1 = "snd (update dets s)"
  let ?m = "length (concat dss)"
  have ih: "concat (map (map track_id) (fst (run (map Update dss) ?s1))) =
           map (\<lambda>i. next_id ?s1 + int i) [0..<?m]"
       "next_id (snd (run (map Update dss) ?s1)) = next_id ?s1 + int ?m"
    using Cons.IH [OF update_wf [OF Cons.prems]] by blast+
  have n1: "next_id ?s1 = next_id s + int (length dets)"
    by (rule update_next_id [OF Cons.prems])
  have out: "map track_id (fst (update dets s)) = map (\<lambda>i. next_id s + int i) [0..<length dets]"
  proof -
    have "map track_id (map aged (new_tracks (next_id s) dets)) =
        map track_id (new_tracks (next_id s) dets)"
      by (rule nth_equalityI) simp_all
    then show ?thesis
      by (simp only: update_out [OF Cons.prems] track_id_new_tracks)
  qed
  have "concat (map (map track_id) (fst (run (map Update (dets # dss)) s))) =
      map track_id (fst (update dets s)) @
      concat (map (map track_id) (fst (run (map Update dss) ?s1)))"
    by (simp only: list.map run_Update_Cons fst_conv concat.simps)
  also have "\<dots> = map (\<lambda>i. next_id s + int i) [0..<length dets] @
      map (\<lambda>i. next_id s + int i) [length dets..<length dets + ?m]"
    by (simp only: out ih(1) n1 map_offset_upt)
  also have "\<dots> = map (\<lambda>i. next_id s + int i) [0..<length (concat (dets # dss))]"
    using upt_add_eq_append [of 0 "length dets" ?m] by simp
  finally have 1: "concat (map (map track_id) (fst (run (map Update (dets # dss)) s))) =
      map (\<lambda>i. next_id s + int i) [0..<length (concat (dets # dss))]" .
  have 2: "next_id (snd (run (map Update (dets # dss)) s)) =
      next_id s + int (length (concat (dets # dss)))"
    by (simp add: run_Update_Cons ih(2) n1 del: run.simps)
  from 1 2 show ?case by blast
qed

lemma active_ids:
  assumes "wf s"
  shows "map track_id (get_active_tracks s) = map fst (tracks s)"
proof -
  have "map fst (live s) = map fst (map (\<lambda>t. (track_id t, t)) (get_active_tracks s))"
    by (simp only: live_from_active [OF assms, symmetric])
  then show ?thesis by (simp add: comp_def)
qed

lemma fresh_tracker_wf: "wf fresh_tracker"
  by (simp add: fresh_tracker_def wf_def)

lemma update_person_fresh:
  "update [person] fresh_tracker =
     ([\<lparr>track_id = 0, box = [10, 10, 50, 50], cls = ''person'', confidence = 9 / 10, last_seen = 1\<rparr>],
      \<lparr>heap = [\<lparr>track_id = 0, box = [10, 10, 50, 50], cls = ''person'', confidence = 9 / 10, last_seen = 1\<rparr>],
       tracks = [(0, 0)], next_id = 1, buffer_size = 30\<rparr>)"
  by (simp add: update_def fresh_tracker_def person_def Let_def)

lemma aged_tracker_eq:
  "aged_tracker =
     \<lparr>heap = [\<lparr>track_id = 0, box = [10, 10, 50, 50], cls = ''person'', confidence = 9 / 10, last_seen = 1\<rparr>],
      tracks = [(0, 0)], next_id = 1, buffer_size = 30\<rparr>"
  by (simp add: aged_tracker_def update_person_fresh)

lemma update_heap_old:
  fixes s :: ByteTrack and dets :: "detection list"
  assumes "wf s" and "a < length (heap s)"
  shows "heap (snd (update dets s)) ! a =
           (if a \<in> snd ` set (tracks s) then aged (heap s ! a) else heap s ! a)"
proof -
  define N where "N = new_tracks (next_id s) dets"
  define addrs where "addrs = [length (heap s)..<length (heap s) + length dets]"
  have notin: "a \<notin> snd ` set (zip (map track_id N) addrs)"
  proof
    assume "a \<in> snd ` set (zip (map track_id N) addrs)"
    then have "a \<in> set addrs" by (auto dest: set_zip_rightD)
    then show False using assms(2) by (simp add: addrs_def)
  qed
  have "heap (snd (update dets s)) ! a =
      (if a \<in> snd ` set (tracks s @ zip (map track_id N) addrs)
       then aged ((heap s @ N) ! a) else (heap s @ N) ! a)"
    using assms(2) by (simp add: update_eq [OF assms(1)] N_def addrs_def)
  then show ?thesis
    using notin assms(2) by (simp add: nth_append image_Un)
qed

lemma update_keeps_track_id:
  "wf s \<Longrightarrow> a < length (heap s) \<Longrightarrow>
   track_id (heap (snd (update dets s)) ! a) = track_id (heap s ! a)"
  by (simp add: update_heap_old)

lemma update_binding_old:
  fixes s :: ByteTrack and dets :: "detection list"
  assumes "wf s" and "map_of (tracks s) tid = Some a"
  shows "map_of (tracks (snd (update dets s))) tid =
           (if last_seen (heap s ! a) + 1 \<le> buffer_size s then Some a else None)"
proof -
  define N where "N = new_tracks (next_id s) dets"
  define addrs where "addrs = [length (heap s)..<length (heap s) + length dets]"
  define items where "items = tracks s @ zip (map track_id N) addrs"
  have a: "a < length (heap s)"
    using wf_addr_below [OF assms(1)] map_of_SomeD [OF assms(2)] by force
  have keys: "map fst items = map fst (tracks s) @ map track_id N"
    by (simp add: items_def addrs_def N_def)
  have "sorted_wrt (<) (map fst (tracks s) @ map track_id N)"
    using assms(1) wf_keys_below [OF assms(1)] sorted_new_tracks [of "next_id s" dets]
      new_tracks_fresh [of _ "next_id s" dets]
    by (fastforce simp: sorted_wrt_append wf_def N_def)
  then have d: "distinct (map fst items)"
    unfolding keys by (simp only: strict_sorted_iff)
  have m: "map_of items tid = Some a"
    using assms(2) by (simp add: items_def map_add_Some_iff)
  have "tracks (snd (update dets s)) =
      filter (\<lambda>(tid, a). last_seen (aged ((heap s @ N) ! a)) \<le> buffer_size s) items"
    by (simp add: update_eq [OF assms(1)] items_def N_def addrs_def)
  then show ?thesis
    using map_of_filter_present [OF d m] a by (simp add: nth_append)
qed

lemma update_ages_positive:
  assumes "wf s"
  shows "list_all (\<lambda>t. 1 \<le> last_seen t) (get_active_tracks (snd (update dets s)))"
proof -
  have "\<forall>(tid, t) \<in> set (live s). 0 \<le> last_seen t"
    using assms unfolding wf_live by blast
  then show ?thesis
    using new_tracks_fresh [of _ "next_id s" dets]
    by (fastforce simp: get_active_tracks_live update_live [OF assms] list_all_iff)
qed

lemma run_ages_positive:
  assumes "wf s" and "no_stale s" and "list_all (\<lambda>t. 1 \<le> last_seen t) (get_active_tracks s)"
  shows "list_all (\<lambda>t. 1 \<le> last_seen t) (get_active_tracks (snd (run ops s)))"
  using assms
proof (induction ops arbitrary: s)
  case Nil
  then show ?case by simp
next
  case (Cons x ops)
  have w: "wf (snd (apply_operation x s))" "no_stale (snd (apply_operation x s))"
    using apply_operation_wf [OF Cons.prems(1,2), of x] by blast+
  have "list_all (\<lambda>t. 1 \<le> last_seen t) (get_active_tracks (snd (apply_operation x s)))"
    using Cons.prems(3) update_ages_positive [OF Cons.prems(1)] by (cases x) simp_all
  from Cons.IH [OF w this] show ?case by (simp add: case_prod_unfold Let_def)
qed

lemma run_updates_same_counter:
  assumes "wf s1" and "wf s2" and "next_id s1 = next_id s2"
  shows "fst (run (map Update dss) s1) = fst (run (map Update dss) s2)"
  using assms
proof (induction dss arbitrary: s1 s2)
  case Nil
  show ?case by simp
next
  case (Cons dets dss)
  have "fst (update dets s1) = fst (update dets s2)"
    using Cons.prems by (simp add: update_out)
  moreover have "fst (run (map Update dss) (snd (update dets s1))) =
      fst (run (map Update dss) (snd (update dets s2)))"
    using Cons.prems by (intro Cons.IH update_wf) (simp_all add: update_next_id)
  ultimately show ?case by (simp only: list.map run_Update_Cons fst_conv)
qed

lemma run_updates_counter_differs:
  assumes "wf s1" and "wf s2" and "next_id s1 \<noteq> next_id s2" and "concat dss \<noteq> []"
  shows "fst (run (map Update dss) s1) \<noteq> fst (run (map Update dss) s2)"
proof
  assume eq: "fst (run (map Update dss) s1) = fst (run (map Update dss) s2)"
  define m where "m = length (concat dss)"
  have m: "0 < m" unfolding m_def length_greater_0_conv by (rule assms(4))
  have "map (\<lambda>i. next_id s1 + int i) [0..<m] = map (\<lambda>i. next_id s2 + int i) [0..<m]"
    using run_updates_ids [OF assms(1), of dss] run_updates_ids [OF assms(2), of dss] eq
    unfolding m_def by simp
  then have "map (\<lambda>i. next_id s1 + int i) [0..<m] ! 0 =
      map (\<lambda>i. next_id s2 + int i) [0..<m] ! 0"
    by (rule arg_cong)
  then have "next_id s1 = next_id s2" using m by simp
  then show False using assms(3) by simp
qed

lemma run_updates_no_detection:
  assumes "wf s" and "concat dss = []"
  shows "fst (run (map Update dss) s) = map (\<lambda>dets. []) dss"
  using assms
proof (induction dss arbitrary: s)
  case Nil
  show ?case by simp
next
  case (Cons dets dss)
  have d: "dets = []" "concat dss = []" using Cons.prems(2) by simp_all
  have "fst (update dets s) = []" by (simp add: update_out [OF Cons.prems(1)] d(1))
  moreover have "fst (run (map Update dss) (snd (update dets s))) = map (\<lambda>dets. []) dss"
    by (rule Cons.IH [OF update_wf [OF Cons.prems(1)] d(2)])
  ultimately show ?case by (simp only: list.map run_Update_Cons fst_conv)
qed


lemma run_from_init:
  assumes "ByteTrack_init bs = Inr s0" and "run ops s0 = (outs, s)"
  shows "wf s" and "no_stale s" and "list_all (\<lambda>t. 1 \<le> last_seen t) (get_active_tracks s)"
    and "buffer_size s0 = bs"
proof -
  have s: "s = snd (run ops s0)" using assms(2) by simp
  have w0: "wf s0" "no_stale s0" "live s0 = []"
    using init_wf [OF assms(1)] by blast+
  have a0: "list_all (\<lambda>t. 1 \<le> last_seen t) (get_active_tracks s0)"
    by (simp add: get_active_tracks_live w0(3))
  show "wf s" "no_stale s" unfolding s using run_wf [OF w0(1,2)] by blast+
  show "list_all (\<lambda>t. 1 \<le> last_seen t) (get_active_tracks s)"
    unfolding s by (rule run_ages_positive [OF w0(1,2) a0])
  show "buffer_size s0 = bs"
    using assms(1) by (auto simp: ByteTrack_init_def split: if_splits)
qed

section \<open>The tracker's operations\<close>

text \<open>
  C1. The claim says that \<^verbatim>\<open>update\<close> returns the live tracks. The code returns
  \<^verbatim>\<open>updated_tracks\<close>, the tracks created by this call: on a tracker with one live
  track of age 1 and buffer size 30, \<^verbatim>\<open>update([])\<close> returns the empty list although
  the track stays live, now with age 2.
\<close>

theorem update_returns_only_new_tracks:
  "fst (update [] aged_tracker) = [] \<and>
   map track_id (get_active_tracks (snd (update [] aged_tracker))) = [0] \<and>
   map last_seen (get_active_tracks (snd (update [] aged_tracker))) = [2] \<and>
   buffer_size (snd (update [] aged_tracker)) = 30"
  by (simp add: aged_tracker_def update_person_fresh)
     (simp add: update_def get_active_tracks_def Let_def)




text \<open>
  C2, as the code has it. On a pass of the loop with a decoded frame on which the detector
  is not due, the tracker is left exactly as it was (no age changes, nothing is evicted,
  nothing is created); what is sent is the list \<^verbatim>\<open>get_active_tracks\<close> reads from it.
\<close>

theorem track_only_cycle_reads_tracker:
  assumes "interval \<noteq> 0" and "received env = Text Frame"
    and "(frame_count st + 1) mod interval \<noteq> 0"
  shows "\<not> detector_called (cycle interval env st) \<and>
         tracker (state_after (cycle interval env st)) = tracker st \<and>
         sent (cycle interval env st) =
           (if send_ok env then Some ([], get_active_tracks (tracker st)) else None) \<and>
         exited (cycle interval env st) =
           (if send_ok env then None else Some (Failed TransportError))"
  using assms by (simp add: cycle_def send_annotated_def Let_def)

theorem track_only_cycle_reads_tracker_witness:
  "(5::int) \<noteq> 0 \<and> received (frame_env (Detections [])) = Text Frame \<and>
   (frame_count \<lparr>frame_count = 0, tracker = aged_tracker\<rparr> + 1) mod 5 \<noteq> 0 \<and>
   tracker (state_after (cycle 5 (frame_env (Detections []))
      \<lparr>frame_count = 0, tracker = aged_tracker\<rparr>)) = aged_tracker \<and>
   sent (cycle 5 (frame_env (Detections [])) \<lparr>frame_count = 0, tracker = aged_tracker\<rparr>) =
     Some ([], get_active_tracks aged_tracker)"
  using track_only_cycle_reads_tracker [of 5 "frame_env (Detections [])"
          "\<lparr>frame_count = 0, tracker = aged_tracker\<rparr>"]
  by (simp add: frame_env_def)

text \<open>
  C2 as stated fails: a track of age 1 still has age 1 after a pass on which the detector
  did not run.
\<close>

theorem track_only_cycle_ages_counterexample:
  "\<not> detector_called (cycle 5 (frame_env (Detections []))
        \<lparr>frame_count = 0, tracker = aged_tracker\<rparr>) \<and>
   map last_seen (get_active_tracks aged_tracker) = [1] \<and>
   map last_seen (get_active_tracks (tracker (state_after
      (cycle 5 (frame_env (Detections [])) \<lparr>frame_count = 0, tracker = aged_tracker\<rparr>)))) = [1]"
  by (simp add: aged_tracker_def update_person_fresh)
     (simp add: cycle_def send_annotated_def frame_env_def Let_def get_active_tracks_def)

text \<open>
  C3, as the code has it. In every state a tracker reaches from its construction no live
  track is older than the buffer size, and this still holds after a further
  \<^verbatim>\<open>update\<close>. An \<^verbatim>\<open>update\<close> adds exactly one to the age of every track that was
  live before it and drops the track from the live set exactly when the new age exceeds
  the buffer size. Reading the live set changes nothing.
\<close>

theorem eviction_bound:
  assumes "ByteTrack_init bs = Inr s0" and "run ops s0 = (outs, s)"
  shows "no_stale s \<and>
         (lookup_track s tid = Some t \<longrightarrow>
            lookup_track (snd (update dets s)) tid =
              (if last_seen t + 1 \<le> buffer_size s
               then Some (t\<lparr>last_seen := last_seen t + 1\<rparr>) else None)) \<and>
         no_stale (snd (update dets s)) \<and>
         snd (apply_operation Fetch s) = s"
proof -
  have s: "s = snd (run ops s0)" using assms(2) by simp
  have "wf s0" "no_stale s0" using init_wf [OF assms(1)] by blast+
  then have w: "wf s" "no_stale s" unfolding s using run_wf by blast+
  show ?thesis
    using w update_lookup_old [OF w(1), of tid t dets] update_no_stale [OF w(1), of dets]
    by (simp add: aged_def)
qed

theorem eviction_bound_witness:
  "ByteTrack_init 1 = Inr (fresh_tracker\<lparr>buffer_size := 1\<rparr>) \<and>
   run [Update [person], Fetch] (fresh_tracker\<lparr>buffer_size := 1\<rparr>) =
     ([fst (update [person] (fresh_tracker\<lparr>buffer_size := 1\<rparr>)),
       get_active_tracks (snd (update [person] (fresh_tracker\<lparr>buffer_size := 1\<rparr>)))],
      snd (update [person] (fresh_tracker\<lparr>buffer_size := 1\<rparr>))) \<and>
   map last_seen (get_active_tracks (snd (update [person] (fresh_tracker\<lparr>buffer_size := 1\<rparr>)))) = [1] \<and>
   lookup_track (snd (update [] (snd (update [person] (fresh_tracker\<lparr>buffer_size := 1\<rparr>))))) 0 = None \<and>
   no_stale (snd (update [person] (fresh_tracker\<lparr>buffer_size := 1\<rparr>)))"
proof -
  let ?s0 = "fresh_tracker\<lparr>buffer_size := 1\<rparr>"
  let ?t = "\<lparr>track_id = 0, box = [10, 10, 50, 50], cls = ''person'', confidence = 9 / 10,
            last_seen = 1\<rparr>"
  have u: "update [person] ?s0 =
     ([?t], \<lparr>heap = [?t], tracks = [(0, 0)], next_id = 1, buffer_size = 1\<rparr>)"
    by (simp add: update_def fresh_tracker_def person_def Let_def)
  have i: "ByteTrack_init 1 = Inr ?s0"
    by (simp add: ByteTrack_init_def fresh_tracker_def)
  have r: "run [Update [person], Fetch] ?s0 =
     ([fst (update [person] ?s0), get_active_tracks (snd (update [person] ?s0))],
      snd (update [person] ?s0))"
    by (simp add: case_prod_unfold Let_def)
  have l: "lookup_track (snd (update [person] ?s0)) 0 = Some ?t"
    by (simp add: u lookup_track_def)
  have a: "map last_seen (get_active_tracks (snd (update [person] ?s0))) = [1]"
    by (simp add: u get_active_tracks_def)
  from eviction_bound [OF i r, of 0 ?t "[]"] l
  have "lookup_track (snd (update [] (snd (update [person] ?s0)))) 0 = None"
    and "no_stale (snd (update [person] ?s0))"
    by (simp_all add: u)
  with i r a show ?thesis by blast
qed

text \<open>
  C3 as stated fails: the age of an unmatched track is the same before and after a
  track-only cycle, and with buffer size 0 the list \<^verbatim>\<open>update\<close> returns holds a track
  of age 1 that the live set no longer has.
\<close>

theorem eviction_bound_counterexample:
  "map (map last_seen) (fst (run [Update [person], Fetch] fresh_tracker)) = [[1], [1]] \<and>
   map last_seen (fst (update [person] (fresh_tracker\<lparr>buffer_size := 0\<rparr>))) = [1] \<and>
   get_active_tracks (snd (update [person] (fresh_tracker\<lparr>buffer_size := 0\<rparr>))) = []"
proof -
  have "update [person] (fresh_tracker\<lparr>buffer_size := 0\<rparr>) =
     ([\<lparr>track_id = 0, box = [10, 10, 50, 50], cls = ''person'', confidence = 9 / 10, last_seen = 1\<rparr>],
      \<lparr>heap = [\<lparr>track_id = 0, box = [10, 10, 50, 50], cls = ''person'', confidence = 9 / 10, last_seen = 1\<rparr>],
       tracks = [], next_id = 1, buffer_size = 0\<rparr>)"
    by (simp add: update_def fresh_tracker_def person_def Let_def)
  then show ?thesis
    by (simp add: update_person_fresh get_active_tracks_def)
qed

text \<open>
  C4. Along any sequence of \<^verbatim>\<open>update\<close> calls on a constructed tracker: the live
  tracks have pairwise different ids; the ids handed out, in the order of their
  assignment, are 0, 1, 2, ..., so each is greater than all earlier ones; every live id
  is below the counter; the counter is the number of detections seen and never decreases.
  A further \<^verbatim>\<open>update\<close> leaves the \<^verbatim>\<open>"id"\<close> of every track object that exists
  unchanged; an id that is bound in \<^verbatim>\<open>self.tracks\<close> stays bound to the same object or
  is removed; and the track found under an id is afterwards found under the same id with
  nothing but its age changed, or is gone.
\<close>

theorem ids_unique_and_increasing:
  assumes "ByteTrack_init bs = Inr s0" and "run (map Update dss) s0 = (outs, s)"
  shows "distinct (map track_id (get_active_tracks s)) \<and>
         concat (map (map track_id) outs) = map int [0..<length (concat dss)] \<and>
         sorted_wrt (<) (concat (map (map track_id) outs)) \<and>
         list_all (\<lambda>t. track_id t < next_id s) (get_active_tracks s) \<and>
         next_id s = int (length (concat dss)) \<and>
         next_id s \<le> next_id (snd (update dets s)) \<and>
         (a < length (heap s) \<longrightarrow>
            track_id (heap (snd (update dets s)) ! a) = track_id (heap s ! a)) \<and>
         (map_of (tracks s) tid = Some a \<longrightarrow>
            track_id (heap s ! a) = tid \<and>
            map_of (tracks (snd (update dets s))) tid =
              (if last_seen (heap s ! a) + 1 \<le> buffer_size s then Some a else None)) \<and>
         (lookup_track s tid = Some t \<longrightarrow>
            track_id t = tid \<and>
            lookup_track (snd (update dets s)) tid =
              (if last_seen t + 1 \<le> buffer_size s
               then Some (t\<lparr>last_seen := last_seen t + 1\<rparr>) else None))"
proof -
  have s: "s = snd (run (map Update dss) s0)" and outs: "outs = fst (run (map Update dss) s0)"
    using assms(2) by simp_all
  have w0: "wf s0" "no_stale s0" "next_id s0 = 0"
    using init_wf [OF assms(1)] by blast+
  have w: "wf s" unfolding s using run_wf [OF w0(1,2)] by blast
  have ids: "concat (map (map track_id) outs) = map int [0..<length (concat dss)]"
    and n: "next_id s = int (length (concat dss))"
    using run_updates_ids [OF w0(1), of dss] by (simp_all add: s outs w0(3))
  have 1: "distinct (map track_id (get_active_tracks s))"
    using w by (simp add: active_ids wf_def strict_sorted_iff)
  have 3: "sorted_wrt (<) (concat (map (map track_id) outs))"
    unfolding ids by (simp add: sorted_wrt_map sorted_wrt_iff_nth_less)
  have 4: "list_all (\<lambda>t. track_id t < next_id s) (get_active_tracks s)"
    using w unfolding wf_live get_active_tracks_live by (auto simp: list_all_iff)
  have 6: "next_id s \<le> next_id (snd (update dets s))"
    by (simp add: update_next_id [OF w])
  have 7: "track_id (heap (snd (update dets s)) ! a) = track_id (heap s ! a)"
    if "a < length (heap s)"
    using that by (rule update_keeps_track_id [OF w])
  have 8: "track_id (heap s ! a) = tid \<and>
            map_of (tracks (snd (update dets s))) tid =
              (if last_seen (heap s ! a) + 1 \<le> buffer_size s then Some a else None)"
    if m: "map_of (tracks s) tid = Some a"
  proof -
    have "(tid, a) \<in> set (tracks s)" using m by (rule map_of_SomeD)
    then have "track_id (heap s ! a) = tid"
      using w by (auto simp: wf_def list_all_iff)
    then show ?thesis using update_binding_old [OF w m, of dets] by simp
  qed
  have 9: "track_id t = tid \<and>
            lookup_track (snd (update dets s)) tid =
              (if last_seen t + 1 \<le> buffer_size s
               then Some (t\<lparr>last_seen := last_seen t + 1\<rparr>) else None)"
    if l: "lookup_track s tid = Some t"
  proof -
    have "(tid, t) \<in> set (live s)"
      using l by (simp add: lookup_track_live map_of_SomeD)
    then have "track_id t = tid" using w unfolding wf_live by auto
    then show ?thesis using update_lookup_old [OF w l, of dets] by (simp add: aged_def)
  qed
  from 1 ids 3 4 n 6 7 8 9 show ?thesis by blast
qed

theorem ids_unique_and_increasing_witness:
  "ByteTrack_init 30 = Inr fresh_tracker \<and>
   run (map Update [[person], [car]]) fresh_tracker =
     (fst (run (map Update [[person], [car]]) fresh_tracker),
      snd (run (map Update [[person], [car]]) fresh_tracker)) \<and>
   concat (map (map track_id) (fst (run (map Update [[person], [car]]) fresh_tracker))) = [0, 1] \<and>
   next_id (snd (run (map Update [[person], [car]]) fresh_tracker)) = 2 \<and>
   distinct (map track_id (get_active_tracks
      (snd (run (map Update [[person], [car]]) fresh_tracker)))) \<and>
   (0::nat) < length (heap (snd (run (map Update [[person], [car]]) fresh_tracker))) \<and>
   track_id (heap (snd (run (map Update [[person], [car]]) fresh_tracker)) ! 0) = 0 \<and>
   track_id (heap (snd (update [person]
      (snd (run (map Update [[person], [car]]) fresh_tracker)))) ! 0) = 0 \<and>
   map_of (tracks (snd (run (map Update [[person], [car]]) fresh_tracker))) 0 = Some 0 \<and>
   map_of (tracks (snd (update [person]
      (snd (run (map Update [[person], [car]]) fresh_tracker))))) 0 = Some 0 \<and>
   map_option cls
     (lookup_track (snd (run (map Update [[person], [car]]) fresh_tracker)) 0) = Some ''person'' \<and>
   map_option (\<lambda>t. (track_id t, cls t, last_seen t)) (lookup_track (snd (update [person]
      (snd (run (map Update [[person], [car]]) fresh_tracker)))) 0) = Some (0, ''person'', 3)"
proof -
  let ?s = "snd (run (map Update [[person], [car]]) fresh_tracker)"
  let ?t = "\<lparr>track_id = 0, box = [10, 10, 50, 50], cls = ''person'', confidence = 9 / 10,
            last_seen = 2\<rparr>"
  have i: "ByteTrack_init 30 = Inr fresh_tracker"
    by (simp add: ByteTrack_init_def fresh_tracker_def)
  have r: "run (map Update [[person], [car]]) fresh_tracker =
     (fst (run (map Update [[person], [car]]) fresh_tracker), ?s)"
    by (rule prod.collapse [symmetric])
  have s: "?s =
     \<lparr>heap = [?t, \<lparr>track_id = 1, box = [60, 60, 100, 100], cls = ''car'',
                  confidence = 8 / 10, last_seen = 1\<rparr>],
      tracks = [(0, 0), (1, 1)], next_id = 2, buffer_size = 30\<rparr>"
    by (simp add: case_prod_unfold Let_def update_person_fresh)
       (simp add: update_def car_def Let_def)
  have l: "lookup_track ?s 0 = Some ?t" "map_of (tracks ?s) 0 = Some 0"
    "0 < length (heap ?s)" "heap ?s ! 0 = ?t" "buffer_size ?s = 30"
    unfolding s by (simp_all add: lookup_track_def)
  have u: "[0..<2] = [0, 1]" by (simp add: upt_rec)
  from ids_unique_and_increasing [OF i r, of "[person]" 0 0 ?t] i r l
  show ?thesis by (auto simp add: u simp del: run.simps)
qed

text \<open>
  C9, as the code has it. Take two trackers, each reached from its constructor by some
  earlier calls. If they agree on the live tracks, the id counter and the buffer size,
  the same operations return the same lists, with the same ids in the same order. The
  ids a sequence of \<^verbatim>\<open>update\<close> calls returns count up from the id counter at its
  start, so two such sequences on the same detections return the same lists exactly when
  the counters agree or there is no detection at all.
\<close>

theorem runs_determined_by_start_state:
  assumes "ByteTrack_init b1 = Inr i1" and "run pre1 i1 = (o1, s1)"
    and "ByteTrack_init b2 = Inr i2" and "run pre2 i2 = (o2, s2)"
  shows "(get_active_tracks s1 = get_active_tracks s2 \<and> next_id s1 = next_id s2 \<and>
          buffer_size s1 = buffer_size s2 \<longrightarrow> fst (run ops s1) = fst (run ops s2)) \<and>
         concat (map (map track_id) (fst (run (map Update dss) s1))) =
           map (\<lambda>i. next_id s1 + int i) [0..<length (concat dss)] \<and>
         (fst (run (map Update dss) s1) = fst (run (map Update dss) s2) \<longleftrightarrow>
            next_id s1 = next_id s2 \<or> concat dss = [])"
proof -
  have w: "wf s1" "wf s2"
    using run_from_init(1) [OF assms(1,2)] run_from_init(1) [OF assms(3,4)] by blast+
  have 1: "fst (run ops s1) = fst (run ops s2)"
    if "get_active_tracks s1 = get_active_tracks s2" "next_id s1 = next_id s2"
       "buffer_size s1 = buffer_size s2"
  proof -
    have "live s1 = live s2" using w that(1) by (simp add: live_from_active)
    with w that show ?thesis by (intro run_same_view)
  qed
  have 2: "concat (map (map track_id) (fst (run (map Update dss) s1))) =
           map (\<lambda>i. next_id s1 + int i) [0..<length (concat dss)]"
    using run_updates_ids [OF w(1), of dss] by blast
  have 3: "fst (run (map Update dss) s1) = fst (run (map Update dss) s2) \<longleftrightarrow>
            next_id s1 = next_id s2 \<or> concat dss = []"
  proof (cases "concat dss = []")
    case True
    then show ?thesis
      by (simp add: run_updates_no_detection [OF w(1)] run_updates_no_detection [OF w(2)]
            del: concat_eq_Nil_conv)
  next
    case False
    then show ?thesis
      using run_updates_same_counter [OF w, of dss] run_updates_counter_differs [OF w _ False]
      by blast
  qed
  from 1 2 3 show ?thesis by blast
qed

theorem runs_determined_by_start_state_witness:
  "ByteTrack_init 1 = Inr (fresh_tracker\<lparr>buffer_size := 1\<rparr>) \<and>
   heap (snd (run [Update [person], Update [car]] (fresh_tracker\<lparr>buffer_size := 1\<rparr>))) \<noteq>
   heap (snd (run [Update [car], Update [car]] (fresh_tracker\<lparr>buffer_size := 1\<rparr>))) \<and>
   map cls (get_active_tracks
     (snd (run [Update [person], Update [car]] (fresh_tracker\<lparr>buffer_size := 1\<rparr>)))) = [''car''] \<and>
   get_active_tracks (snd (run [Update [person], Update [car]] (fresh_tracker\<lparr>buffer_size := 1\<rparr>))) =
   get_active_tracks (snd (run [Update [car], Update [car]] (fresh_tracker\<lparr>buffer_size := 1\<rparr>))) \<and>
   fst (run [Fetch, Update [person], Fetch]
     (snd (run [Update [person], Update [car]] (fresh_tracker\<lparr>buffer_size := 1\<rparr>)))) =
   fst (run [Fetch, Update [person], Fetch]
     (snd (run [Update [car], Update [car]] (fresh_tracker\<lparr>buffer_size := 1\<rparr>)))) \<and>
   ByteTrack_init 30 = Inr fresh_tracker \<and>
   next_id (snd (run [] fresh_tracker)) \<noteq> next_id (snd (run [Update [person]] fresh_tracker)) \<and>
   fst (run (map Update [[person]]) (snd (run [] fresh_tracker))) \<noteq>
   fst (run (map Update [[person]]) (snd (run [Update [person]] fresh_tracker)))"
proof -
  let ?z = "fresh_tracker\<lparr>buffer_size := 1\<rparr>"
  let ?A = "snd (run [Update [person], Update [car]] ?z)"
  let ?B = "snd (run [Update [car], Update [car]] ?z)"
  let ?car1 = "\<lparr>track_id = 1, box = [60, 60, 100, 100], cls = ''car'', confidence = 8 / 10,
               last_seen = 1\<rparr>"
  have i1: "ByteTrack_init 1 = Inr ?z"
    by (simp add: ByteTrack_init_def fresh_tracker_def)
  have i30: "ByteTrack_init 30 = Inr fresh_tracker"
    by (simp add: ByteTrack_init_def fresh_tracker_def)
  have A: "?A =
     \<lparr>heap = [\<lparr>track_id = 0, box = [10, 10, 50, 50], cls = ''person'', confidence = 9 / 10,
               last_seen = 2\<rparr>, ?car1],
      tracks = [(1, 1)], next_id = 2, buffer_size = 1\<rparr>"
    by (simp add: case_prod_unfold Let_def update_def fresh_tracker_def person_def car_def)
  have B: "?B =
     \<lparr>heap = [\<lparr>track_id = 0, box = [60, 60, 100, 100], cls = ''car'', confidence = 8 / 10,
               last_seen = 2\<rparr>, ?car1],
      tracks = [(1, 1)], next_id = 2, buffer_size = 1\<rparr>"
    by (simp add: case_prod_unfold Let_def update_def fresh_tracker_def car_def)
  have rA: "run [Update [person], Update [car]] ?z =
      (fst (run [Update [person], Update [car]] ?z), ?A)"
    and rB: "run [Update [car], Update [car]] ?z = (fst (run [Update [car], Update [car]] ?z), ?B)"
    by (rule prod.collapse [symmetric])+
  have v: "get_active_tracks ?A = get_active_tracks ?B" "next_id ?A = next_id ?B"
    "buffer_size ?A = buffer_size ?B" "heap ?A \<noteq> heap ?B"
    "map cls (get_active_tracks ?A) = [''car'']"
    unfolding A B by (simp_all add: get_active_tracks_def)
  have 1: "fst (run [Fetch, Update [person], Fetch] ?A) = fst (run [Fetch, Update [person], Fetch] ?B)"
    using runs_determined_by_start_state [OF i1 rA i1 rB, of "[Fetch, Update [person], Fetch]"] v(1-3)
    by blast
  let ?F = "snd (run [] fresh_tracker)"
  let ?G = "snd (run [Update [person]] fresh_tracker)"
  have rF: "run [] fresh_tracker = ([], ?F)"
    and rG: "run [Update [person]] fresh_tracker = (fst (run [Update [person]] fresh_tracker), ?G)"
    by simp (rule prod.collapse [symmetric])
  have n: "next_id ?F \<noteq> next_id ?G"
    by (simp add: case_prod_unfold Let_def update_person_fresh) (simp add: fresh_tracker_def)
  have c: "concat [[person]] \<noteq> []" by simp
  have 2: "fst (run (map Update [[person]]) ?F) \<noteq> fst (run (map Update [[person]]) ?G)"
    using runs_determined_by_start_state [OF i30 rF i30 rG, of _ "[[person]]"] n c
    by blast
  from i1 i30 v 1 n 2 show ?thesis by blast
qed

text \<open>
  C9 as stated fails: every session uses the module-level tracker. A first session that
  receives one frame with one detection sends a track with id 0 and leaves the tracker
  with its counter at 1; a second session fed the same frame sends a track with id 1.
\<close>

theorem shared_tracker_counterexample:
  "map sent (websocket_endpoint 1 [frame_env (Detections [person])] fresh_tracker) =
     [Some ([person], [\<lparr>track_id = 0, box = [10, 10, 50, 50], cls = ''person'',
                         confidence = 9 / 10, last_seen = 1\<rparr>])] \<and>
   map (tracker \<circ> state_after)
     (websocket_endpoint 1 [frame_env (Detections [person])] fresh_tracker) = [aged_tracker] \<and>
   map sent (websocket_endpoint 1 [frame_env (Detections [person])] aged_tracker) =
     [Some ([person], [\<lparr>track_id = 1, box = [10, 10, 50, 50], cls = ''person'',
                         confidence = 9 / 10, last_seen = 1\<rparr>])]"
proof -
  have u: "update [person] aged_tracker =
     ([\<lparr>track_id = 1, box = [10, 10, 50, 50], cls = ''person'', confidence = 9 / 10,
        last_seen = 1\<rparr>],
      \<lparr>heap = [\<lparr>track_id = 0, box = [10, 10, 50, 50], cls = ''person'', confidence = 9 / 10,
                last_seen = 2\<rparr>,
               \<lparr>track_id = 1, box = [10, 10, 50, 50], cls = ''person'', confidence = 9 / 10,
                last_seen = 1\<rparr>],
       tracks = [(0, 0), (1, 1)], next_id = 2, buffer_size = 30\<rparr>)"
    unfolding aged_tracker_eq by (simp add: update_def person_def Let_def)
  have 1: "map sent (websocket_endpoint 1 [frame_env (Detections [person])] fresh_tracker) =
     [Some ([person], [\<lparr>track_id = 0, box = [10, 10, 50, 50], cls = ''person'',
                         confidence = 9 / 10, last_seen = 1\<rparr>])]"
    and 2: "map (tracker \<circ> state_after)
       (websocket_endpoint 1 [frame_env (Detections [person])] fresh_tracker) = [aged_tracker]"
    by (simp_all add: websocket_endpoint_def cycle_def send_annotated_def frame_env_def Let_def
          update_person_fresh aged_tracker_eq)
  have 3: "map sent (websocket_endpoint 1 [frame_env (Detections [person])] aged_tracker) =
     [Some ([person], [\<lparr>track_id = 1, box = [10, 10, 50, 50], cls = ''person'',
                         confidence = 9 / 10, last_seen = 1\<rparr>])]"
    by (simp add: websocket_endpoint_def cycle_def send_annotated_def frame_env_def Let_def u)
  from 1 2 3 show ?thesis by blast
qed

text \<open>
  C10. Every track created by a call of \<^verbatim>\<open>update\<close> is aged by the same call: the
  objects the call returns, one per detection, all have \<^verbatim>\<open>last_seen\<close> 1. With a buffer
  size of at least 1 they are in \<^verbatim>\<open>self.tracks\<close> under their ids; with buffer size 0
  they have been deleted again and \<^verbatim>\<open>self.tracks\<close> is empty when the call returns.
\<close>

theorem new_tracks_aged_in_same_call:
  assumes "wf s" and "update dets s = (out, s')"
  shows "length out = length dets \<and>
         map track_id out = map (\<lambda>i. next_id s + int i) [0..<length dets] \<and>
         list_all (\<lambda>t. last_seen t = 1) out \<and>
         (1 \<le> buffer_size s \<longrightarrow> list_all (\<lambda>t. lookup_track s' (track_id t) = Some t) out) \<and>
         (buffer_size s = 0 \<longrightarrow> list_all (\<lambda>t. lookup_track s' (track_id t) = None) out \<and>
                                   tracks s' = [])"
proof -
  have out: "out = map aged (new_tracks (next_id s) dets)"
    using update_out [OF assms(1), of dets] assms(2) by simp
  have s': "s' = snd (update dets s)" using assms(2) by simp
  have 1: "length out = length dets" by (simp add: out)
  have "map track_id (map aged (new_tracks (next_id s) dets)) =
        map track_id (new_tracks (next_id s) dets)"
    by (rule nth_equalityI) simp_all
  then have 2: "map track_id out = map (\<lambda>i. next_id s + int i) [0..<length dets]"
    by (simp only: out track_id_new_tracks)
  have 3: "list_all (\<lambda>t. last_seen t = 1) out"
    using new_tracks_fresh [of _ "next_id s" dets] by (auto simp: out list_all_iff)
  have 4: "list_all (\<lambda>t. lookup_track s' (track_id t) = Some t) out" if "1 \<le> buffer_size s"
    using that update_lookup_new [OF assms(1), of _ dets]
    by (auto simp: out s' list_all_iff)
  have 5: "list_all (\<lambda>t. lookup_track s' (track_id t) = None) out" if "buffer_size s = 0"
    using that update_lookup_new [OF assms(1), of _ dets]
    by (auto simp: out s' list_all_iff)
  have 6: "tracks s' = []" if b: "buffer_size s = 0"
  proof -
    have pos: "\<forall>(tid, t) \<in> set (live s). 0 \<le> last_seen t"
      using assms(1) unfolding wf_live by blast
    have "live s' = []"
      unfolding s' update_live [OF assms(1)] filter_empty_conv
      using pos new_tracks_fresh [of _ "next_id s" dets] by (fastforce simp: b)
    then show ?thesis by (simp add: live_Nil_iff)
  qed
  from 1 2 3 4 5 6 show ?thesis by blast
qed

theorem new_tracks_aged_in_same_call_witness:
  "wf (fresh_tracker\<lparr>buffer_size := 0\<rparr>) \<and>
   update [person] (fresh_tracker\<lparr>buffer_size := 0\<rparr>) =
     (fst (update [person] (fresh_tracker\<lparr>buffer_size := 0\<rparr>)),
      snd (update [person] (fresh_tracker\<lparr>buffer_size := 0\<rparr>))) \<and>
   map last_seen (fst (update [person] (fresh_tracker\<lparr>buffer_size := 0\<rparr>))) = [1] \<and>
   tracks (snd (update [person] (fresh_tracker\<lparr>buffer_size := 0\<rparr>))) = [] \<and>
   wf fresh_tracker \<and>
   update [person] fresh_tracker = (fst (update [person] fresh_tracker), aged_tracker) \<and>
   map (lookup_track aged_tracker) [0] = map Some (fst (update [person] fresh_tracker))"
proof -
  let ?s0 = "fresh_tracker\<lparr>buffer_size := 0\<rparr>"
  have w: "wf ?s0" "wf fresh_tracker" by (simp_all add: fresh_tracker_def wf_def)
  have r0: "update [person] ?s0 = (fst (update [person] ?s0), snd (update [person] ?s0))"
    by (rule prod.collapse [symmetric])
  have r1: "update [person] fresh_tracker = (fst (update [person] fresh_tracker), aged_tracker)"
    by (simp add: aged_tracker_def)
  have b: "buffer_size ?s0 = 0" "1 \<le> buffer_size fresh_tracker" "next_id fresh_tracker = 0"
    by (simp_all add: fresh_tracker_def)
  obtain t where t: "fst (update [person] ?s0) = [t]"
    using new_tracks_aged_in_same_call [OF w(1) r0]
    by (cases "fst (update [person] ?s0)") (auto simp: length_Suc_conv)
  obtain t' where t': "fst (update [person] fresh_tracker) = [t']"
    using new_tracks_aged_in_same_call [OF w(2) r1]
    by (cases "fst (update [person] fresh_tracker)") (auto simp: length_Suc_conv)
  have "map last_seen (fst (update [person] ?s0)) = [1]"
    and "tracks (snd (update [person] ?s0)) = []"
    using new_tracks_aged_in_same_call [OF w(1) r0] b(1) by (simp_all add: t)
  moreover have "map (lookup_track aged_tracker) [0] = map Some (fst (update [person] fresh_tracker))"
    using new_tracks_aged_in_same_call [OF w(2) r1] b(2,3) by (auto simp: t')
  ultimately show ?thesis using w r0 r1 by blast
qed

section \<open>The session loop\<close>

text \<open>
  C6. With an interval of at least 1, a pass of the loop calls the detector exactly when
  it received a frame that decodes and the frame counter, incremented for this frame, is
  a multiple of the interval. The decision reads nothing but the counter and the
  interval, and the remainder never raises.
\<close>

theorem detector_cadence:
  assumes "1 \<le> interval"
  shows "detector_called (cycle interval env st) =
           (received env = Text Frame \<and> (frame_count st + 1) mod interval = 0) \<and>
         exited (cycle interval env st) \<noteq> Some (Failed ZeroDivisionError) \<and>
         (received env = Text Frame \<longrightarrow>
            frame_count (state_after (cycle interval env st)) = frame_count st + 1)"
  using assms
  by (auto simp: cycle_def send_annotated_def Let_def
           split: received.splits decoded.splits detector_result.splits prod.splits)

theorem detector_cadence_witness:
  "(1::int) \<le> 5 \<and>
   detector_called (cycle 5 (frame_env (Detections [person])) (new_session\<lparr>frame_count := 4\<rparr>)) \<and>
   \<not> detector_called (cycle 5 (frame_env (Detections [person])) new_session) \<and>
   frame_count (state_after (cycle 5 (frame_env (Detections [person])) new_session)) = 1"
  using detector_cadence [of 5 "frame_env (Detections [person])" "new_session\<lparr>frame_count := 4\<rparr>"]
        detector_cadence [of 5 "frame_env (Detections [person])" new_session]
  by (simp add: frame_env_def new_session_def)

text \<open>
  C8. A payload that does not decode (the decoder raises or returns \<^verbatim>\<open>None\<close>) is
  skipped: the pass leaves the tracker and the frame counter as they were, sends nothing,
  does not call the detector, and the loop goes on with the next message.
\<close>

theorem undecodable_frame_skipped:
  assumes "received env = Text DecodeRaises \<or> received env = Text DecodeNone"
  shows "state_after (cycle interval env st) = st \<and>
         exited (cycle interval env st) = None \<and>
         sent (cycle interval env st) = None \<and>
         \<not> detector_called (cycle interval env st) \<and>
         stream_loop interval (env # envs) st =
           cycle interval env st # stream_loop interval envs st"
  using assms by (auto simp: cycle_def Let_def)

theorem undecodable_frame_skipped_witness:
  "received bad_payload_env = Text DecodeNone \<and>
   state_after (cycle 1 bad_payload_env new_session) = new_session \<and>
   exited (cycle 1 bad_payload_env new_session) = None \<and>
   sent (cycle 1 bad_payload_env new_session) = None \<and>
   \<not> detector_called (cycle 1 bad_payload_env new_session)"
  using undecodable_frame_skipped [of bad_payload_env 1 new_session "[]"]
  by (simp add: bad_payload_env_def)

text \<open>
  C7, as the code has it. When the detector raises on a pass in which it is due, the
  exception leaves the loop: the session ends with the error, nothing is sent, the
  tracker is not touched (no aging, no eviction), and no later message is received.
\<close>

theorem detector_error_closes_session:
  assumes "interval \<noteq> 0" and "received env = Text Frame"
    and "(frame_count st + 1) mod interval = 0" and "detector env = DetectRaises"
  shows "exited (cycle interval env st) = Some (Failed DetectorError) \<and>
         sent (cycle interval env st) = None \<and>
         tracker (state_after (cycle interval env st)) = tracker st \<and>
         frame_count (state_after (cycle interval env st)) = frame_count st + 1 \<and>
         stream_loop interval (env # envs) st = [cycle interval env st]"
  using assms by (simp add: cycle_def Let_def)

theorem detector_error_closes_session_witness:
  "(1::int) \<noteq> 0 \<and> received (frame_env DetectRaises) = Text Frame \<and>
   (frame_count new_session + 1) mod 1 = 0 \<and> detector (frame_env DetectRaises) = DetectRaises \<and>
   exited (cycle 1 (frame_env DetectRaises) new_session) = Some (Failed DetectorError) \<and>
   tracker (state_after (cycle 1 (frame_env DetectRaises) new_session)) = tracker new_session \<and>
   stream_loop 1 [frame_env DetectRaises, frame_env (Detections [person])] new_session =
     [cycle 1 (frame_env DetectRaises) new_session]"
  using detector_error_closes_session [of 1 "frame_env DetectRaises" new_session
          "[frame_env (Detections [person])]"]
  by (simp add: frame_env_def new_session_def)

text \<open>
  C7 as stated fails: with interval 1 the first frame is a detection pass; when the
  detector raises there, the session ends with the error and the second frame of the
  connection is never processed.
\<close>

theorem detector_error_fatal_counterexample:
  "exited (cycle 1 (frame_env DetectRaises) new_session) = Some (Failed DetectorError) \<and>
   length (websocket_endpoint 1 [frame_env DetectRaises, frame_env (Detections [person])]
             fresh_tracker) = 1"
  by (simp add: websocket_endpoint_def cycle_def frame_env_def new_session_def Let_def)

end
